theory Spec2Isabelle
  imports Main "HOL-Library.AList"
begin

section \<open>Decoded records\<close>

text \<open>
  The detector (\<^verbatim>\<open>detector_ankur_singh.py\<close>) works on one decoded JSON payload: a Python
  \<^verbatim>\<open>dict\<close> from field names to JSON values. A dict is an association list here, in
  insertion order; \<open>map_of\<close> reads it, \<open>AList.update\<close> is Python's item assignment (it
  overwrites in place, or appends a new key at the end).

  Text is a \<open>char list\<close> in which every \<open>char\<close> stands for one code point, so the model
  covers text whose code points are below 256. In that range the class \<^verbatim>\<open>\d\<close> of Python's
  \<^verbatim>\<open>re\<close> is exactly \<^verbatim>\<open>0-9\<close>.
\<close>

datatype jvalue =
    JStr string
  | JInt int
  | JFloat int int
  | JBool bool
  | JNull
  | JArr "jvalue list"
  | JObj "(string \<times> jvalue) list"

type_synonym pydict = "(string \<times> jvalue) list"

definition has_key :: "pydict \<Rightarrow> string \<Rightarrow> bool" where
  \<comment> \<open>\<^verbatim>\<open>k in js\<close>\<close>
  "has_key js k = (map_of js k \<noteq> None)"

definition getitem :: "pydict \<Rightarrow> string \<Rightarrow> jvalue" where
  \<comment> \<open>\<^verbatim>\<open>js[k]\<close>; every use in the source is guarded by \<^verbatim>\<open>k in js\<close>\<close>
  "getitem js k = the (map_of js k)"

definition setitem :: "pydict \<Rightarrow> string \<Rightarrow> jvalue \<Rightarrow> pydict" where
  \<comment> \<open>\<^verbatim>\<open>d[k] = v\<close>\<close>
  "setitem d k v = AList.update k v d"

definition dict_update :: "pydict \<Rightarrow> pydict \<Rightarrow> pydict" where
  \<comment> \<open>\<^verbatim>\<open>d.update(r)\<close>: assigns the items of \<open>r\<close> in order\<close>
  "dict_update d r = fold (\<lambda>(k, v) acc. setitem acc k v) r d"

definition isinstance_str :: "jvalue \<Rightarrow> bool" where
  "isinstance_str val = (case val of JStr s \<Rightarrow> True | _ \<Rightarrow> False)"

fun the_str :: "jvalue \<Rightarrow> string" where
  \<comment> \<open>the text of a value known to be a \<^verbatim>\<open>str\<close>\<close>
  "the_str (JStr s) = s"

section \<open>String operations of Python\<close>

definition newline :: char where
  "newline = CHR 0x0A"

definition is_digit :: "char \<Rightarrow> bool" where
  "is_digit c = (c \<in> set ''0123456789'')"

definition is_upper_AZ :: "char \<Rightarrow> bool" where
  "is_upper_AZ c = (c \<in> set ''ABCDEFGHIJKLMNOPQRSTUVWXYZ'')"

definition is_space :: "char \<Rightarrow> bool" where
  \<comment> \<open>the whitespace of \<^verbatim>\<open>str.split()\<close> and \<^verbatim>\<open>str.strip()\<close> below code point 256\<close>
  "is_space c = ((of_char c :: nat) \<in> {9, 10, 11, 12, 13, 28, 29, 30, 31, 32, 133, 160})"

definition lower_char :: "char \<Rightarrow> char" where
  "lower_char c =
     (let n = (of_char c :: nat)
      in if (65 \<le> n \<and> n \<le> 90) \<or> (192 \<le> n \<and> n \<le> 222 \<and> n \<noteq> 215)
         then char_of (n + 32) else c)"

definition py_lower :: "string \<Rightarrow> string" where
  "py_lower s = map lower_char s"

fun startswith :: "string \<Rightarrow> string \<Rightarrow> bool" where
  "startswith s [] = True"
| "startswith [] (p # ps) = False"
| "startswith (c # cs) (p # ps) = (c = p \<and> startswith cs ps)"

fun contains :: "string \<Rightarrow> string \<Rightarrow> bool" where
  \<comment> \<open>\<^verbatim>\<open>sub in s\<close>\<close>
  "contains sub [] = (sub = [])"
| "contains sub (c # cs) = (startswith (c # cs) sub \<or> contains sub cs)"

fun split_from :: "string \<Rightarrow> string \<Rightarrow> string list" where
  \<comment> \<open>the scan of \<^verbatim>\<open>str.split()\<close>: the token read so far, then the rest of the text\<close>
  "split_from tok [] = (if tok = [] then [] else [tok])"
| "split_from tok (c # cs) =
     (if is_space c then (if tok = [] then split_from [] cs else tok # split_from [] cs)
      else split_from (tok @ [c]) cs)"

definition py_split :: "string \<Rightarrow> string list" where
  "py_split s = split_from [] s"

definition py_strip :: "string \<Rightarrow> string" where
  "py_strip s = rev (dropWhile is_space (rev (dropWhile is_space s)))"

fun py_join :: "string \<Rightarrow> string list \<Rightarrow> string" where
  "py_join sep [] = []"
| "py_join sep [x] = x"
| "py_join sep (x # y # ys) = x @ sep @ py_join sep (y # ys)"

section \<open>Regular expressions\<close>

text \<open>
  The patterns of the source use character classes, sequence, alternation, greedy
  repetition, capturing groups and the anchors \<^verbatim>\<open>^\<close> and \<^verbatim>\<open>$\<close>. \<open>rmatch\<close> is the
  backtracking matcher of \<^verbatim>\<open>re\<close>: it lists, in the order in which \<^verbatim>\<open>re\<close> tries them,
  the ways a pattern matches at the start of the remaining text, each as the text left
  over and the groups captured. \<open>subj\<close> is the whole subject, for \<^verbatim>\<open>^\<close>.
\<close>

datatype regex =
    Cls "char \<Rightarrow> bool"
  | Eps
  | Seq regex regex
  | Alt regex regex
  | Star regex
  | Grp nat regex
  | Bol
  | Eol

type_synonym caps = "(nat \<times> string) list"

function rmatch :: "string \<Rightarrow> regex \<Rightarrow> string \<Rightarrow> caps \<Rightarrow> (string \<times> caps) list" where
  "rmatch subj (Cls P) s g = (case s of [] \<Rightarrow> [] | c # cs \<Rightarrow> if P c then [(cs, g)] else [])"
| "rmatch subj Eps s g = [(s, g)]"
| "rmatch subj (Seq a b) s g =
     concat (map (\<lambda>(s', g'). rmatch subj b s' g') (rmatch subj a s g))"
| "rmatch subj (Alt a b) s g = rmatch subj a s g @ rmatch subj b s g"
| "rmatch subj (Star a) s g =
     concat (map (\<lambda>(s', g'). if length s' < length s then rmatch subj (Star a) s' g' else [])
                 (rmatch subj a s g)) @ [(s, g)]"
| "rmatch subj (Grp n a) s g =
     map (\<lambda>(s', g'). (s', (n, take (length s - length s') s) # g')) (rmatch subj a s g)"
| "rmatch subj Bol s g = (if length s = length subj then [(s, g)] else [])"
| "rmatch subj Eol s g = (if s = [] \<or> s = [newline] then [(s, g)] else [])"
  by pat_completeness auto
termination
  by (relation "inv_image (less_than <*lex*> less_than) (\<lambda>(subj, r, s, g). (size r, length s))")
     auto

declare rmatch.simps [simp del]

definition lit :: "char \<Rightarrow> regex" where
  "lit c = Cls (\<lambda>x. x = c)"

definition dot :: regex where
  \<comment> \<open>\<^verbatim>\<open>.\<close> without DOTALL: any character but a newline\<close>
  "dot = Cls (\<lambda>x. x \<noteq> newline)"

definition digit :: regex where
  "digit = Cls is_digit"

definition not_at :: regex where
  \<comment> \<open>\<^verbatim>\<open>[^@]\<close>\<close>
  "not_at = Cls (\<lambda>x. x \<noteq> CHR ''@'')"

definition rplus :: "regex \<Rightarrow> regex" where
  "rplus r = Seq r (Star r)"

definition ropt :: "regex \<Rightarrow> regex" where
  \<comment> \<open>greedy \<^verbatim>\<open>?\<close>: the pattern first, then nothing\<close>
  "ropt r = Alt r Eps"

primrec rrep :: "nat \<Rightarrow> regex \<Rightarrow> regex" where
  \<comment> \<open>\<^verbatim>\<open>r{n}\<close>\<close>
  "rrep 0 r = Eps"
| "rrep (Suc n) r = Seq r (rrep n r)"

definition mgroup :: "caps \<Rightarrow> nat \<Rightarrow> string" where
  \<comment> \<open>\<^verbatim>\<open>m.group(n)\<close>; the latest capture of group \<open>n\<close>\<close>
  "mgroup g n = the (map_of g n)"

definition fullmatch :: "regex \<Rightarrow> string \<Rightarrow> bool" where
  \<comment> \<open>truth value of \<^verbatim>\<open>re.fullmatch(r, s)\<close>\<close>
  "fullmatch r s = list_ex (\<lambda>(s', g). s' = []) (rmatch s r s [])"

definition re_match :: "regex \<Rightarrow> string \<Rightarrow> caps option" where
  \<comment> \<open>\<^verbatim>\<open>re.match(r, s)\<close>: the first way to match at position 0\<close>
  "re_match r s = (case rmatch s r s [] of [] \<Rightarrow> None | (s', g) # rest \<Rightarrow> Some g)"

fun search_from :: "string \<Rightarrow> regex \<Rightarrow> string \<Rightarrow> bool" where
  "search_from subj r [] = (rmatch subj r [] [] \<noteq> [])"
| "search_from subj r (c # cs) = (rmatch subj r (c # cs) [] \<noteq> [] \<or> search_from subj r cs)"

definition re_search :: "regex \<Rightarrow> string \<Rightarrow> bool" where
  \<comment> \<open>truth value of \<^verbatim>\<open>re.search(r, s)\<close>\<close>
  "re_search r s = search_from s r s"

function sub_from :: "string \<Rightarrow> regex \<Rightarrow> (caps \<Rightarrow> string) \<Rightarrow> string \<Rightarrow> string" where
  "sub_from subj r repl s =
     (case rmatch subj r s [] of
        (s', g) # rest \<Rightarrow>
          if length s' < length s then repl g @ sub_from subj r repl s'
          else (case s of [] \<Rightarrow> repl g | c # cs \<Rightarrow> repl g @ c # sub_from subj r repl cs)
      | [] \<Rightarrow> (case s of [] \<Rightarrow> [] | c # cs \<Rightarrow> c # sub_from subj r repl cs))"
  by pat_completeness auto
termination
  by (relation "measure (\<lambda>(subj, r, repl, s). length s)") auto

declare sub_from.simps [simp del]

definition re_sub :: "regex \<Rightarrow> (caps \<Rightarrow> string) \<Rightarrow> string \<Rightarrow> string" where
  \<comment> \<open>\<^verbatim>\<open>re.sub(r, repl, s)\<close>: every non-overlapping match, leftmost first, is replaced\<close>
  "re_sub r repl s = sub_from s r repl s"

section \<open>Field maskers\<close>

text \<open>
  Each masker is called only on a value its classifier accepted, and every classifier
  requires a \<^verbatim>\<open>str\<close>; the maskers are therefore functions on text.
\<close>

definition mask_phone :: "string \<Rightarrow> string" where
  \<comment> \<open>\<^verbatim>\<open>v[:2] + 'XXXXXX' + v[-2:]\<close>\<close>
  "mask_phone v = take 2 v @ ''XXXXXX'' @ drop (length v - 2) v"

definition mask_aadhar :: "string \<Rightarrow> string" where
  "mask_aadhar v = take 2 v @ ''XXXXXXXX'' @ drop (length v - 2) v"

definition mask_passport :: "string \<Rightarrow> string" where
  "mask_passport v = (if length v = 8 then [v ! 0] @ ''XXXXXXX'' else ''[REDACTED_PASSPORT]'')"

definition re_upi :: regex where
  \<comment> \<open>\<^verbatim>\<open>(.)(?:.*)(@.+)\<close>\<close>
  "re_upi = Seq (Grp 1 dot) (Seq (Star dot) (Grp 2 (Seq (lit CHR ''@'') (rplus dot))))"

definition mask_upi :: "string \<Rightarrow> string" where
  "mask_upi upi = re_sub re_upi (\<lambda>m. mgroup m 1 @ ''XXX'' @ mgroup m 2) upi"

definition re_email_parts :: regex where
  \<comment> \<open>\<^verbatim>\<open>^([^@]{2})([^@]*)(@.+)$\<close>\<close>
  "re_email_parts =
     Seq Bol (Seq (Grp 1 (rrep 2 not_at)) (Seq (Grp 2 (Star not_at))
       (Seq (Grp 3 (Seq (lit CHR ''@'') (rplus dot))) Eol)))"

definition mask_email :: "string \<Rightarrow> string" where
  "mask_email email =
     (case re_match re_email_parts email of
        Some m \<Rightarrow> mgroup m 1 @ ''XXX'' @ mgroup m 3
      | None \<Rightarrow> ''[REDACTED_EMAIL]'')"

definition mask_name :: "string \<Rightarrow> string" where
  "mask_name name =
     py_join '' ''
       (map (\<lambda>part. if length part > 1 then [part ! 0] @ ''XXX'' else part) (py_split name))"

definition mask_address :: "string \<Rightarrow> string" where
  "mask_address address = ''[REDACTED_ADDRESS]''"

definition mask_device_id :: "string \<Rightarrow> string" where
  "mask_device_id device_id = ''[REDACTED_DEVICEID]''"

definition mask_ip :: "string \<Rightarrow> string" where
  "mask_ip ip_addr = ''[REDACTED_IP]''"

section \<open>Field classifiers\<close>

text \<open>
  A classifier is \<^verbatim>\<open>isinstance(val, str) and ...\<close>; only its truth value is used.
\<close>

definition re_phone :: regex where
  \<comment> \<open>\<^verbatim>\<open>\d{10}\<close>\<close>
  "re_phone = rrep 10 digit"

definition is_phone :: "jvalue \<Rightarrow> bool" where
  "is_phone val = (isinstance_str val \<and> fullmatch re_phone (the_str val))"

definition re_aadhar :: regex where
  \<comment> \<open>\<^verbatim>\<open>\d{12}\<close>\<close>
  "re_aadhar = rrep 12 digit"

definition is_aadhar :: "jvalue \<Rightarrow> bool" where
  "is_aadhar val = (isinstance_str val \<and> fullmatch re_aadhar (the_str val))"

definition re_passport :: regex where
  \<comment> \<open>\<^verbatim>\<open>[A-Z][0-9]{7}\<close>\<close>
  "re_passport = Seq (Cls is_upper_AZ) (rrep 7 (Cls is_digit))"

definition is_passport :: "jvalue \<Rightarrow> bool" where
  "is_passport val = (isinstance_str val \<and> fullmatch re_passport (the_str val))"

definition is_upi :: "jvalue \<Rightarrow> bool" where
  "is_upi val = (isinstance_str val \<and> contains ''@'' (the_str val))"

definition re_email :: regex where
  \<comment> \<open>\<^verbatim>\<open>[^@]+@[^@]+\.[^@]+\<close>\<close>
  "re_email =
     Seq (rplus not_at) (Seq (lit CHR ''@'') (Seq (rplus not_at)
       (Seq (lit CHR ''.'') (rplus not_at))))"

definition is_email :: "jvalue \<Rightarrow> bool" where
  "is_email val = (isinstance_str val \<and> fullmatch re_email (the_str val))"

definition is_address :: "jvalue \<Rightarrow> bool" where
  "is_address val =
     (isinstance_str val \<and>
      (contains '','' (the_str val) \<or>
       re_search digit (the_str val) \<or>
       list_ex (\<lambda>w. contains w (py_lower (the_str val)))
         [''road'', ''street'', ''avenue'', ''lane'', ''block'', ''sector'']))"

definition re_octet :: regex where
  \<comment> \<open>\<^verbatim>\<open>(25[0-5]|2[0-4]\d|1\d\d|[1-9]?\d)\<close>\<close>
  "re_octet =
     Grp 2
       (Alt (Seq (lit CHR ''2'') (Seq (lit CHR ''5'') (Cls (\<lambda>c. c \<in> set ''012345''))))
       (Alt (Seq (lit CHR ''2'') (Seq (Cls (\<lambda>c. c \<in> set ''01234'')) digit))
       (Alt (Seq (lit CHR ''1'') (Seq digit digit))
            (Seq (ropt (Cls (\<lambda>c. c \<in> set ''123456789''))) digit))))"

definition re_ip :: regex where
  \<comment> \<open>\<^verbatim>\<open>((25[0-5]|2[0-4]\d|1\d\d|[1-9]?\d)(\.|$)){4}\<close>\<close>
  "re_ip = rrep 4 (Grp 1 (Seq re_octet (Grp 3 (Alt (lit CHR ''.'') Eol))))"

definition is_ip :: "jvalue \<Rightarrow> bool" where
  "is_ip val = (isinstance_str val \<and> fullmatch re_ip (the_str val @ ''.''))"

definition is_device_id :: "jvalue \<Rightarrow> bool" where
  "is_device_id val =
     (isinstance_str val \<and>
      (startswith (py_lower (the_str val)) ''dev'' \<or>
       startswith (py_lower (the_str val)) ''mob'' \<or>
       startswith (py_lower (the_str val)) ''tab'' \<or>
       length (the_str val) \<ge> 6))"

definition is_name :: "jvalue \<Rightarrow> bool" where
  "is_name val = (isinstance_str val \<and> length (py_split (py_strip (the_str val))) \<ge> 2)"

section \<open>Row processing\<close>

definition detect_standalone_pii :: "pydict \<Rightarrow> bool \<times> pydict" where
  "detect_standalone_pii js =
     (let (found, redacted) = (False, []);
          (found, redacted) =
            (if has_key js ''phone'' \<and> is_phone (getitem js ''phone'')
             then (True, setitem redacted ''phone''
                           (JStr (mask_phone (the_str (getitem js ''phone'')))))
             else (found, redacted));
          (found, redacted) =
            (if has_key js ''aadhar'' \<and> is_aadhar (getitem js ''aadhar'')
             then (True, setitem redacted ''aadhar''
                           (JStr (mask_aadhar (the_str (getitem js ''aadhar'')))))
             else (found, redacted));
          (found, redacted) =
            (if has_key js ''passport'' \<and> is_passport (getitem js ''passport'')
             then (True, setitem redacted ''passport''
                           (JStr (mask_passport (the_str (getitem js ''passport'')))))
             else (found, redacted));
          (found, redacted) =
            (if has_key js ''upi_id'' \<and> is_upi (getitem js ''upi_id'')
             then (True, setitem redacted ''upi_id''
                           (JStr (mask_upi (the_str (getitem js ''upi_id'')))))
             else (found, redacted))
      in (found, redacted))"

definition comb_keys :: "pydict \<Rightarrow> string list" where
  \<comment> \<open>the list \<^verbatim>\<open>keys\<close> that \<^verbatim>\<open>detect_combinatorial_pii\<close> collects\<close>
  "comb_keys js =
     (let keys = [];
          keys = (if has_key js ''name'' \<and> is_name (getitem js ''name'')
                  then keys @ [''name''] else keys);
          keys = (if has_key js ''email'' \<and> is_email (getitem js ''email'')
                  then keys @ [''email''] else keys);
          keys = (if has_key js ''address'' \<and> is_address (getitem js ''address'')
                  then keys @ [''address''] else keys);
          keys = (if has_key js ''device_id'' \<and> is_device_id (getitem js ''device_id'')
                  then keys @ [''device_id''] else keys);
          keys = (if has_key js ''ip_address'' \<and> is_ip (getitem js ''ip_address'')
                  then keys @ [''ip_address''] else keys)
      in keys)"

definition comb_mask :: "pydict \<Rightarrow> string \<Rightarrow> pydict \<Rightarrow> pydict" where
  \<comment> \<open>the body of the loop \<^verbatim>\<open>for k in keys\<close>\<close>
  "comb_mask js k redacted =
     (let v = getitem js k
      in if k = ''name'' then setitem redacted k (JStr (mask_name (the_str v)))
         else if k = ''email'' then setitem redacted k (JStr (mask_email (the_str v)))
         else if k = ''address'' then setitem redacted k (JStr (mask_address (the_str v)))
         else if k = ''device_id'' then setitem redacted k (JStr (mask_device_id (the_str v)))
         else if k = ''ip_address'' then setitem redacted k (JStr (mask_ip (the_str v)))
         else redacted)"

definition detect_combinatorial_pii :: "pydict \<Rightarrow> bool \<times> pydict" where
  "detect_combinatorial_pii js =
     (let keys = comb_keys js
      in if length keys \<ge> 2 then (True, fold (comb_mask js) keys []) else (False, []))"

definition redact_obj :: "pydict \<Rightarrow> pydict \<times> bool" where
  \<comment> \<open>from the decoded payload \<^verbatim>\<open>js\<close> on; decoding belongs to the caller's row loop\<close>
  "redact_obj js =
     (let output_js = js;
          is_pii = False;
          (st_pii, st_redacted) = detect_standalone_pii js;
          (is_pii, output_js) =
            (if st_pii then (True, dict_update output_js st_redacted) else (is_pii, output_js));
          (comb_pii, comb_redacted) = detect_combinatorial_pii js;
          (is_pii, output_js) =
            (if comb_pii then (True, dict_update output_js comb_redacted) else (is_pii, output_js))
      in (output_js, is_pii))"

section \<open>Notions used by the statements and their proofs\<close>

definition examined_fields :: "string list" where
  \<comment> \<open>the field names that occur in the two detection passes\<close>
  "examined_fields =
     [''phone'', ''aadhar'', ''passport'', ''upi_id'',
      ''name'', ''email'', ''address'', ''device_id'', ''ip_address'']"

definition rests :: "string \<Rightarrow> regex \<Rightarrow> string \<Rightarrow> string list" where
  \<comment> \<open>the texts left over by the matches of a pattern, captures forgotten\<close>
  "rests subj r s = map fst (rmatch subj r s [])"











text \<open>
  For the payment handle: the suffixes of a text, shortest first (the order in which a
  greedy \<^verbatim>\<open>.*\<close> gives characters back), and the second group of the masker's pattern.
\<close>

fun sfx :: "string \<Rightarrow> string list" where
  "sfx [] = [[]]"
| "sfx (x # xs) = sfx xs @ [x # xs]"

definition upi_tail :: regex where
  "upi_tail = Grp 2 (Seq (lit CHR ''@'') (rplus dot))"

section \<open>Dictionaries\<close>

lemma map_of_setitem: "map_of (setitem d k v) = (map_of d)(k \<mapsto> v)"
  by (simp add: setitem_def update_conv')

lemma keys_setitem: "k \<in> fst ` set d \<Longrightarrow> map fst (setitem d k v) = map fst d"
  by (simp add: setitem_def update_keys)

lemma keys_setitem_set: "fst ` set (setitem d k v) = insert k (fst ` set d)"
  using dom_update [of k v d] by (simp add: setitem_def dom_map_of_conv_image_fst)

lemma map_of_dict_update: "map_of (dict_update d r) = map_of d ++ map_of (rev r)"
proof (induction r arbitrary: d)
  case Nil
  show ?case by (simp add: dict_update_def)
next
  case (Cons p r)
  obtain k v where p: "p = (k, v)" by (cases p)
  have "dict_update d (p # r) = dict_update (setitem d k v) r"
    by (simp add: dict_update_def p)
  then show ?case
    using Cons.IH [of "setitem d k v"]
    by (auto simp: p map_of_setitem map_add_def fun_eq_iff split: option.splits)
qed

lemma keys_dict_update:
  "fst ` set r \<subseteq> fst ` set d \<Longrightarrow> map fst (dict_update d r) = map fst d"
proof (induction r arbitrary: d)
  case Nil
  show ?case by (simp add: dict_update_def)
next
  case (Cons p r)
  obtain k v where p: "p = (k, v)" by (cases p)
  have step: "dict_update d (p # r) = dict_update (setitem d k v) r"
    by (simp add: dict_update_def p)
  have k: "k \<in> fst ` set d" using Cons.prems by (auto simp: p)
  have "fst ` set r \<subseteq> fst ` set (setitem d k v)"
    using Cons.prems by (auto simp: keys_setitem_set)
  then show ?case
    using Cons.IH [of "setitem d k v"] by (simp add: step keys_setitem [OF k])
qed


lemma detect_standalone_pii_eq:
  "detect_standalone_pii js =
     ((has_key js ''phone'' \<and> is_phone (getitem js ''phone'')) \<or>
      (has_key js ''aadhar'' \<and> is_aadhar (getitem js ''aadhar'')) \<or>
      (has_key js ''passport'' \<and> is_passport (getitem js ''passport'')) \<or>
      (has_key js ''upi_id'' \<and> is_upi (getitem js ''upi_id'')),
      (if has_key js ''phone'' \<and> is_phone (getitem js ''phone'')
       then [(''phone'', JStr (mask_phone (the_str (getitem js ''phone''))))] else []) @
      (if has_key js ''aadhar'' \<and> is_aadhar (getitem js ''aadhar'')
       then [(''aadhar'', JStr (mask_aadhar (the_str (getitem js ''aadhar''))))] else []) @
      (if has_key js ''passport'' \<and> is_passport (getitem js ''passport'')
       then [(''passport'', JStr (mask_passport (the_str (getitem js ''passport''))))] else []) @
      (if has_key js ''upi_id'' \<and> is_upi (getitem js ''upi_id'')
       then [(''upi_id'', JStr (mask_upi (the_str (getitem js ''upi_id''))))] else []))"
  by (simp add: detect_standalone_pii_def setitem_def)

lemma comb_keys_eq:
  "comb_keys js =
     (if has_key js ''name'' \<and> is_name (getitem js ''name'') then [''name''] else []) @
     (if has_key js ''email'' \<and> is_email (getitem js ''email'') then [''email''] else []) @
     (if has_key js ''address'' \<and> is_address (getitem js ''address'') then [''address''] else []) @
     (if has_key js ''device_id'' \<and> is_device_id (getitem js ''device_id'')
      then [''device_id''] else []) @
     (if has_key js ''ip_address'' \<and> is_ip (getitem js ''ip_address'')
      then [''ip_address''] else [])"
  by (simp add: comb_keys_def Let_def)

lemma comb_keys_subset:
  "set (comb_keys js) \<subseteq> {''name'', ''email'', ''address'', ''device_id'', ''ip_address''}"
  by (auto simp: comb_keys_eq)

lemma comb_keys_has_key: "k \<in> set (comb_keys js) \<Longrightarrow> has_key js k"
  by (auto simp: comb_keys_eq split: if_splits)

lemma map_of_comb_mask:
  "k \<in> {''name'', ''email'', ''address'', ''device_id'', ''ip_address''} \<Longrightarrow>
   map_of (comb_mask js k acc) = (map_of acc)(k \<mapsto> the (map_of (comb_mask js k []) k))"
  by (auto simp: comb_mask_def map_of_setitem Let_def)

lemma map_of_fold_comb_mask:
  "set keys \<subseteq> {''name'', ''email'', ''address'', ''device_id'', ''ip_address''} \<Longrightarrow>
   map_of (fold (comb_mask js) keys acc) k =
     (if k \<in> set keys then map_of (comb_mask js k []) k else map_of acc k)"
proof (induction keys arbitrary: acc)
  case Nil
  show ?case by simp
next
  case (Cons x xs)
  have x: "x \<in> {''name'', ''email'', ''address'', ''device_id'', ''ip_address''}"
    using Cons.prems by simp
  have xs: "set xs \<subseteq> {''name'', ''email'', ''address'', ''device_id'', ''ip_address''}"
    using Cons.prems by simp
  have here: "map_of (comb_mask js x []) x = Some (the (map_of (comb_mask js x []) x))"
    using fun_cong [OF map_of_comb_mask [OF x, of js "[]"], of x] by simp
  show ?case
    using Cons.IH [OF xs, of "comb_mask js x acc"] here
    by (simp add: map_of_comb_mask [OF x, of js acc])
qed

lemma keys_fold_comb_mask:
  "set keys \<subseteq> {''name'', ''email'', ''address'', ''device_id'', ''ip_address''} \<Longrightarrow>
   fst ` set (fold (comb_mask js) keys acc) = fst ` set acc \<union> set keys"
proof (induction keys arbitrary: acc)
  case Nil
  show ?case by simp
next
  case (Cons x xs)
  have x: "x \<in> {''name'', ''email'', ''address'', ''device_id'', ''ip_address''}"
    using Cons.prems by simp
  have xs: "set xs \<subseteq> {''name'', ''email'', ''address'', ''device_id'', ''ip_address''}"
    using Cons.prems by simp
  have "fst ` set (comb_mask js x acc) = insert x (fst ` set acc)"
    using x by (auto simp: comb_mask_def keys_setitem_set Let_def)
  then show ?case
    using Cons.IH [OF xs, of "comb_mask js x acc"] by auto
qed

lemma detect_combinatorial_pii_fst:
  "fst (detect_combinatorial_pii js) = (2 \<le> length (comb_keys js))"
  by (simp add: detect_combinatorial_pii_def Let_def)

lemma detect_combinatorial_pii_keys:
  "fst ` set (snd (detect_combinatorial_pii js)) =
     (if 2 \<le> length (comb_keys js) then set (comb_keys js) else {})"
  by (simp add: detect_combinatorial_pii_def Let_def keys_fold_comb_mask [OF comb_keys_subset])

lemma detect_combinatorial_pii_map_of:
  "map_of (snd (detect_combinatorial_pii js)) k =
     (if 2 \<le> length (comb_keys js) \<and> k \<in> set (comb_keys js)
      then map_of (comb_mask js k []) k else None)"
  by (simp add: detect_combinatorial_pii_def Let_def map_of_fold_comb_mask [OF comb_keys_subset])

lemma redact_obj_eq:
  "redact_obj js =
     (dict_update (dict_update js (snd (detect_standalone_pii js)))
                  (snd (detect_combinatorial_pii js)),
      fst (detect_standalone_pii js) \<or> fst (detect_combinatorial_pii js))"
proof -
  have st: "\<not> fst (detect_standalone_pii js) \<Longrightarrow> snd (detect_standalone_pii js) = []"
    by (simp add: detect_standalone_pii_eq)
  have cb: "\<not> fst (detect_combinatorial_pii js) \<Longrightarrow> snd (detect_combinatorial_pii js) = []"
    by (simp add: detect_combinatorial_pii_def Let_def split: if_splits)
  have empty: "\<And>d. dict_update d [] = d"
    by (simp add: dict_update_def)
  show ?thesis
    using st cb
    by (cases "detect_standalone_pii js"; cases "detect_combinatorial_pii js")
       (auto simp: redact_obj_def Let_def empty)
qed

lemma map_of_rev_distinct: "distinct (map fst r) \<Longrightarrow> map_of (rev r) = map_of r"
proof (induction r)
  case Nil
  show ?case by simp
next
  case (Cons p r)
  have "fst p \<notin> fst ` set r" using Cons.prems by simp
  then have "map_of r (fst p) = None" by (simp add: map_of_eq_None_iff)
  then show ?case
    using Cons by (cases p) (auto simp: map_add_def fun_eq_iff split: option.splits)
qed

lemma distinct_comb_mask:
  "distinct (map fst acc) \<Longrightarrow> distinct (map fst (comb_mask js k acc))"
  by (simp add: comb_mask_def Let_def setitem_def distinct_update)

lemma distinct_fold_comb_mask:
  "distinct (map fst acc) \<Longrightarrow> distinct (map fst (fold (comb_mask js) keys acc))"
  by (induction keys arbitrary: acc) (simp_all add: distinct_comb_mask)

lemma distinct_standalone: "distinct (map fst (snd (detect_standalone_pii js)))"
  by (auto simp: detect_standalone_pii_eq)

lemma distinct_combinatorial: "distinct (map fst (snd (detect_combinatorial_pii js)))"
  by (simp add: detect_combinatorial_pii_def Let_def distinct_fold_comb_mask)

lemma redact_obj_map_of:
  "map_of (fst (redact_obj js)) k =
     (case map_of (snd (detect_combinatorial_pii js)) k of
        Some v \<Rightarrow> Some v
      | None \<Rightarrow> (case map_of (snd (detect_standalone_pii js)) k of
                   Some v \<Rightarrow> Some v
                 | None \<Rightarrow> map_of js k))"
  by (simp add: redact_obj_eq map_of_dict_update map_of_rev_distinct
        distinct_standalone distinct_combinatorial map_add_def)

lemma has_key_iff: "has_key js k = (k \<in> fst ` set js)"
  by (simp add: has_key_def map_of_eq_None_iff)

lemma standalone_keys_subset: "fst ` set (snd (detect_standalone_pii js)) \<subseteq> fst ` set js"
  by (force simp: detect_standalone_pii_eq has_key_iff split: if_splits)

lemma standalone_keys_names:
  "fst ` set (snd (detect_standalone_pii js)) \<subseteq> {''phone'', ''aadhar'', ''passport'', ''upi_id''}"
  by (auto simp: detect_standalone_pii_eq split: if_splits)

lemma combinatorial_keys_subset:
  "fst ` set (snd (detect_combinatorial_pii js)) \<subseteq> fst ` set js"
  using comb_keys_has_key [of _ js]
  by (auto simp: detect_combinatorial_pii_keys has_key_iff split: if_splits)

text \<open>
  Claim C7. The masked record has exactly the key set of the input record: no field is
  added and none is dropped. The keys even keep their order.
\<close>

theorem redact_obj_keeps_keys:
  "set (map fst (fst (redact_obj js))) = set (map fst js) \<and>
   map fst (fst (redact_obj js)) = map fst js"
proof -
  have one: "map fst (dict_update js (snd (detect_standalone_pii js))) = map fst js"
    by (rule keys_dict_update [OF standalone_keys_subset])
  have "fst ` set (snd (detect_combinatorial_pii js))
          \<subseteq> fst ` set (dict_update js (snd (detect_standalone_pii js)))"
    using combinatorial_keys_subset [of js] one
    by (metis list.set_map)
  then have "map fst (fst (redact_obj js)) = map fst js"
    using one by (simp add: redact_obj_eq keys_dict_update)
  then show ?thesis by simp
qed

theorem redact_obj_keeps_keys_witness:
  "map fst (fst (redact_obj [(''phone'', JStr ''9876543210''), (''note'', JInt 5)])) =
     [''phone'', ''note'']"
  using redact_obj_keeps_keys [of "[(''phone'', JStr ''9876543210''), (''note'', JInt 5)]"]
  by simp

lemma untouched_key_kept:
  "k \<notin> fst ` set (snd (detect_standalone_pii js)) \<Longrightarrow>
   k \<notin> fst ` set (snd (detect_combinatorial_pii js)) \<Longrightarrow>
   map_of (fst (redact_obj js)) k = map_of js k"
  by (simp add: redact_obj_map_of map_of_eq_None_iff [THEN iffD2])

text \<open>
  Claim C8. A field that neither pass matched, that is, a key of neither pass's
  \<^verbatim>\<open>redacted\<close> dict, holds its original value in the masked record.
\<close>

theorem unmatched_field_unchanged:
  "k \<notin> fst ` set (snd (detect_standalone_pii js)) \<Longrightarrow>
   k \<notin> fst ` set (snd (detect_combinatorial_pii js)) \<Longrightarrow>
   map_of (fst (redact_obj js)) k = map_of js k"
  by (rule untouched_key_kept)

theorem unmatched_field_unchanged_witness:
  "''email'' \<notin> fst ` set (snd (detect_standalone_pii
      [(''phone'', JStr ''9876543210''), (''email'', JStr ''john@test.com'')])) \<and>
   ''email'' \<notin> fst ` set (snd (detect_combinatorial_pii
      [(''phone'', JStr ''9876543210''), (''email'', JStr ''john@test.com'')])) \<and>
   map_of (fst (redact_obj [(''phone'', JStr ''9876543210''), (''email'', JStr ''john@test.com'')]))
     ''email'' = Some (JStr ''john@test.com'')"
proof -
  have a: "''email'' \<notin> fst ` set (snd (detect_standalone_pii
      [(''phone'', JStr ''9876543210''), (''email'', JStr ''john@test.com'')]))"
    using standalone_keys_names
      [of "[(''phone'', JStr ''9876543210''), (''email'', JStr ''john@test.com'')]"]
    by auto
  have "comb_keys [(''phone'', JStr ''9876543210''), (''email'', JStr ''john@test.com'')] =
          [''email'']"
    by code_simp
  then have b: "''email'' \<notin> fst ` set (snd (detect_combinatorial_pii
      [(''phone'', JStr ''9876543210''), (''email'', JStr ''john@test.com'')]))"
    by (simp add: detect_combinatorial_pii_keys)
  show ?thesis
    using a b unmatched_field_unchanged [OF a b] by simp
qed

lemma combinatorial_no_standalone_key:
  "k \<in> {''phone'', ''aadhar'', ''passport'', ''upi_id''} \<Longrightarrow>
   map_of (snd (detect_combinatorial_pii js)) k = None"
  using comb_keys_subset [of js] by (auto simp: detect_combinatorial_pii_map_of)

lemma redact_obj_found:
  "snd (redact_obj js) = (fst (detect_standalone_pii js) \<or> 2 \<le> length (comb_keys js))"
  by (simp add: redact_obj_eq detect_combinatorial_pii_fst)



lemma comb_mask_value:
  "map_of (comb_mask js ''name'' []) ''name'' =
     Some (JStr (mask_name (the_str (getitem js ''name''))))"
  "map_of (comb_mask js ''email'' []) ''email'' =
     Some (JStr (mask_email (the_str (getitem js ''email''))))"
  "map_of (comb_mask js ''address'' []) ''address'' =
     Some (JStr (mask_address (the_str (getitem js ''address''))))"
  "map_of (comb_mask js ''device_id'' []) ''device_id'' =
     Some (JStr (mask_device_id (the_str (getitem js ''device_id''))))"
  "map_of (comb_mask js ''ip_address'' []) ''ip_address'' =
     Some (JStr (mask_ip (the_str (getitem js ''ip_address''))))"
  by (simp_all add: comb_mask_def Let_def map_of_setitem)

lemma standalone_no_combinatorial_key:
  "k \<in> {''name'', ''email'', ''address'', ''device_id'', ''ip_address''} \<Longrightarrow>
   map_of (snd (detect_standalone_pii js)) k = None"
  using standalone_keys_names [of js] by (auto simp: map_of_eq_None_iff)

text \<open>
  Claim C3, as the code has it. When exactly one combinatorial field matches, the
  combinatorial pass reports nothing and masks nothing, so the result's \<open>found\<close> is that
  of the standalone pass and the five combinatorial fields keep their values. When two or
  more match, \<open>found\<close> is true and every matching combinatorial field holds its masked
  value.
\<close>

theorem combinatorial_threshold:
  "(length (comb_keys js) = 1 \<longrightarrow>
      detect_combinatorial_pii js = (False, []) \<and>
      snd (redact_obj js) = fst (detect_standalone_pii js) \<and>
      (\<forall>k \<in> {''name'', ''email'', ''address'', ''device_id'', ''ip_address''}.
         map_of (fst (redact_obj js)) k = map_of js k)) \<and>
   (2 \<le> length (comb_keys js) \<longrightarrow>
      snd (redact_obj js) \<and>
      (''name'' \<in> set (comb_keys js) \<longrightarrow> map_of (fst (redact_obj js)) ''name'' =
         Some (JStr (mask_name (the_str (getitem js ''name''))))) \<and>
      (''email'' \<in> set (comb_keys js) \<longrightarrow> map_of (fst (redact_obj js)) ''email'' =
         Some (JStr (mask_email (the_str (getitem js ''email''))))) \<and>
      (''address'' \<in> set (comb_keys js) \<longrightarrow> map_of (fst (redact_obj js)) ''address'' =
         Some (JStr (mask_address (the_str (getitem js ''address''))))) \<and>
      (''device_id'' \<in> set (comb_keys js) \<longrightarrow> map_of (fst (redact_obj js)) ''device_id'' =
         Some (JStr (mask_device_id (the_str (getitem js ''device_id''))))) \<and>
      (''ip_address'' \<in> set (comb_keys js) \<longrightarrow> map_of (fst (redact_obj js)) ''ip_address'' =
         Some (JStr (mask_ip (the_str (getitem js ''ip_address''))))))"
proof (intro conjI impI)
  assume one: "length (comb_keys js) = 1"
  show "detect_combinatorial_pii js = (False, [])"
    using one by (simp add: detect_combinatorial_pii_def Let_def)
  show "snd (redact_obj js) = fst (detect_standalone_pii js)"
    using one by (simp add: redact_obj_found)
  show "\<forall>k \<in> {''name'', ''email'', ''address'', ''device_id'', ''ip_address''}.
          map_of (fst (redact_obj js)) k = map_of js k"
  proof
    fix k assume k: "k \<in> {''name'', ''email'', ''address'', ''device_id'', ''ip_address''}"
    show "map_of (fst (redact_obj js)) k = map_of js k"
      using one standalone_no_combinatorial_key [OF k, of js]
      by (simp add: redact_obj_map_of detect_combinatorial_pii_map_of)
  qed
next
  assume two: "2 \<le> length (comb_keys js)"
  show "snd (redact_obj js)"
    using two by (simp add: redact_obj_found)
  show "map_of (fst (redact_obj js)) ''name'' =
          Some (JStr (mask_name (the_str (getitem js ''name''))))"
    if "''name'' \<in> set (comb_keys js)"
    using two that by (simp add: redact_obj_map_of detect_combinatorial_pii_map_of comb_mask_value)
  show "map_of (fst (redact_obj js)) ''email'' =
          Some (JStr (mask_email (the_str (getitem js ''email''))))"
    if "''email'' \<in> set (comb_keys js)"
    using two that by (simp add: redact_obj_map_of detect_combinatorial_pii_map_of comb_mask_value)
  show "map_of (fst (redact_obj js)) ''address'' =
          Some (JStr (mask_address (the_str (getitem js ''address''))))"
    if "''address'' \<in> set (comb_keys js)"
    using two that by (simp add: redact_obj_map_of detect_combinatorial_pii_map_of comb_mask_value)
  show "map_of (fst (redact_obj js)) ''device_id'' =
          Some (JStr (mask_device_id (the_str (getitem js ''device_id''))))"
    if "''device_id'' \<in> set (comb_keys js)"
    using two that by (simp add: redact_obj_map_of detect_combinatorial_pii_map_of comb_mask_value)
  show "map_of (fst (redact_obj js)) ''ip_address'' =
          Some (JStr (mask_ip (the_str (getitem js ''ip_address''))))"
    if "''ip_address'' \<in> set (comb_keys js)"
    using two that by (simp add: redact_obj_map_of detect_combinatorial_pii_map_of comb_mask_value)
qed

theorem combinatorial_threshold_witness:
  "length (comb_keys [(''email'', JStr ''john@test.com'')]) = 1 \<and>
   detect_combinatorial_pii [(''email'', JStr ''john@test.com'')] = (False, []) \<and>
   2 \<le> length (comb_keys [(''email'', JStr ''john@test.com''), (''name'', JStr ''John Doe'')]) \<and>
   snd (redact_obj [(''email'', JStr ''john@test.com''), (''name'', JStr ''John Doe'')]) \<and>
   map_of (fst (redact_obj [(''email'', JStr ''john@test.com''), (''name'', JStr ''John Doe'')]))
     ''name'' = Some (JStr ''JXXX DXXX'') \<and>
   map_of (fst (redact_obj [(''email'', JStr ''john@test.com''), (''name'', JStr ''John Doe'')]))
     ''email'' = Some (JStr ''joXXX@test.com'')"
proof -
  have one: "length (comb_keys [(''email'', JStr ''john@test.com'')]) = 1"
    by code_simp
  have keys: "comb_keys [(''email'', JStr ''john@test.com''), (''name'', JStr ''John Doe'')] =
                [''name'', ''email'']"
    by code_simp
  have name: "mask_name (the_str (getitem [(''email'', JStr ''john@test.com''),
                (''name'', JStr ''John Doe'')] ''name'')) = ''JXXX DXXX''"
    by code_simp
  have email: "mask_email (the_str (getitem [(''email'', JStr ''john@test.com''),
                (''name'', JStr ''John Doe'')] ''email'')) = ''joXXX@test.com''"
    by code_simp
  show ?thesis
    using one
      combinatorial_threshold [of "[(''email'', JStr ''john@test.com'')]"]
      combinatorial_threshold [of "[(''email'', JStr ''john@test.com''),
                                    (''name'', JStr ''John Doe'')]"]
    by (simp add: keys name email)
qed

text \<open>
  With a phone number beside a single matching combinatorial field, \<open>found\<close> is true.
\<close>

theorem one_combinatorial_match_counterexample:
  "length (comb_keys [(''phone'', JStr ''9876543210''), (''email'', JStr ''john@test.com'')]) = 1 \<and>
   snd (redact_obj [(''phone'', JStr ''9876543210''), (''email'', JStr ''john@test.com'')]) = True"
  by code_simp

lemma standalone_item_kept:
  assumes "(k, v) \<in> set (snd (detect_standalone_pii js))"
  shows "map_of (fst (redact_obj js)) k = Some v"
proof -
  have m: "map_of (snd (detect_standalone_pii js)) k = Some v"
    using assms distinct_standalone by simp
  have "k \<in> {''phone'', ''aadhar'', ''passport'', ''upi_id''}"
    using assms standalone_keys_names [of js] by force
  then show ?thesis
    by (simp add: redact_obj_map_of combinatorial_no_standalone_key m)
qed

lemma combinatorial_item_kept:
  assumes "(k, v) \<in> set (snd (detect_combinatorial_pii js))"
  shows "map_of (fst (redact_obj js)) k = Some v"
proof -
  have "map_of (snd (detect_combinatorial_pii js)) k = Some v"
    using assms distinct_combinatorial by simp
  then show ?thesis by (simp add: redact_obj_map_of)
qed

lemma masked_item_kept:
  "(k, v) \<in> set (snd (detect_standalone_pii js) @ snd (detect_combinatorial_pii js)) \<Longrightarrow>
   map_of (fst (redact_obj js)) k = Some v"
  using standalone_item_kept combinatorial_item_kept by auto

lemma found_nonempty:
  assumes "snd (redact_obj js)"
  shows "snd (detect_standalone_pii js) @ snd (detect_combinatorial_pii js) \<noteq> []"
proof (cases "fst (detect_standalone_pii js)")
  case True
  then have "snd (detect_standalone_pii js) \<noteq> []"
    by (simp add: detect_standalone_pii_eq) blast
  then show ?thesis by simp
next
  case False
  then have two: "2 \<le> length (comb_keys js)"
    using assms by (simp add: redact_obj_found)
  then have "set (comb_keys js) \<noteq> {}" by auto
  then have "fst ` set (snd (detect_combinatorial_pii js)) \<noteq> {}"
    using two by (simp add: detect_combinatorial_pii_keys)
  then show ?thesis by auto
qed

text \<open>
  Claim C1, as the code has it. When \<open>found\<close> is true, some field of the record was
  matched by a pass and holds that pass's masked value in the output; and a field's value
  differs from the input exactly when the masked value assigned to it differs from the
  original value.
\<close>

theorem found_means_field_masked:
  assumes "snd (redact_obj js)"
  shows "(\<exists>k v. (k, v) \<in> set (snd (detect_standalone_pii js) @ snd (detect_combinatorial_pii js))
            \<and> has_key js k \<and> map_of (fst (redact_obj js)) k = Some v) \<and>
         (\<forall>k. (map_of (fst (redact_obj js)) k \<noteq> map_of js k) =
              (\<exists>v. (k, v) \<in> set (snd (detect_standalone_pii js) @
                                  snd (detect_combinatorial_pii js))
                   \<and> map_of js k \<noteq> Some v))"
proof
  obtain k v where kv: "(k, v) \<in> set (snd (detect_standalone_pii js) @
                                      snd (detect_combinatorial_pii js))"
    using found_nonempty [OF assms] by (cases "snd (detect_standalone_pii js) @
      snd (detect_combinatorial_pii js)") auto
  have "k \<in> fst ` set js"
    using kv standalone_keys_subset [of js] combinatorial_keys_subset [of js] by force
  then have "has_key js k" by (simp add: has_key_iff)
  then show "\<exists>k v. (k, v) \<in> set (snd (detect_standalone_pii js) @
                snd (detect_combinatorial_pii js))
            \<and> has_key js k \<and> map_of (fst (redact_obj js)) k = Some v"
    using kv masked_item_kept [OF kv] by blast
next
  show "\<forall>k. (map_of (fst (redact_obj js)) k \<noteq> map_of js k) =
             (\<exists>v. (k, v) \<in> set (snd (detect_standalone_pii js) @
                                 snd (detect_combinatorial_pii js))
                  \<and> map_of js k \<noteq> Some v)"
  proof
    fix k
    show "(map_of (fst (redact_obj js)) k \<noteq> map_of js k) =
             (\<exists>v. (k, v) \<in> set (snd (detect_standalone_pii js) @
                                 snd (detect_combinatorial_pii js))
                  \<and> map_of js k \<noteq> Some v)"
    proof (cases "k \<in> fst ` set (snd (detect_standalone_pii js) @
                                  snd (detect_combinatorial_pii js))")
      case True
      then obtain v where kv: "(k, v) \<in> set (snd (detect_standalone_pii js) @
                                      snd (detect_combinatorial_pii js))"
        by force
      have uniq: "w = v" if w: "(k, w) \<in> set (snd (detect_standalone_pii js) @
                                      snd (detect_combinatorial_pii js))" for w
        using masked_item_kept [OF kv] masked_item_kept [OF w] by simp
      have out: "map_of (fst (redact_obj js)) k = Some v"
        by (rule masked_item_kept [OF kv])
      show ?thesis
      proof
        assume "map_of (fst (redact_obj js)) k \<noteq> map_of js k"
        then have "map_of js k \<noteq> Some v" using out by simp
        then show "\<exists>v. (k, v) \<in> set (snd (detect_standalone_pii js) @
                                 snd (detect_combinatorial_pii js))
                  \<and> map_of js k \<noteq> Some v"
          using kv by blast
      next
        assume "\<exists>v. (k, v) \<in> set (snd (detect_standalone_pii js) @
                                 snd (detect_combinatorial_pii js))
                  \<and> map_of js k \<noteq> Some v"
        then obtain w where w: "(k, w) \<in> set (snd (detect_standalone_pii js) @
                                 snd (detect_combinatorial_pii js))"
          and ne: "map_of js k \<noteq> Some w" by blast
        have "w = v" by (rule uniq [OF w])
        then show "map_of (fst (redact_obj js)) k \<noteq> map_of js k"
          using ne out by simp
      qed
    next
      case False
      then have "k \<notin> fst ` set (snd (detect_standalone_pii js))"
        and "k \<notin> fst ` set (snd (detect_combinatorial_pii js))"
        by auto
      then have "map_of (fst (redact_obj js)) k = map_of js k"
        by (rule untouched_key_kept)
      then show ?thesis using False by force
    qed
  qed
qed

theorem found_means_field_masked_witness:
  "snd (redact_obj [(''phone'', JStr ''9876543210'')]) \<and>
   (\<exists>k v. (k, v) \<in> set (snd (detect_standalone_pii [(''phone'', JStr ''9876543210'')]) @
                         snd (detect_combinatorial_pii [(''phone'', JStr ''9876543210'')]))
      \<and> has_key [(''phone'', JStr ''9876543210'')] k
      \<and> map_of (fst (redact_obj [(''phone'', JStr ''9876543210'')])) k = Some v)"
proof -
  have h: "snd (redact_obj [(''phone'', JStr ''9876543210'')])"
    by code_simp
  show ?thesis
    using h found_means_field_masked [OF h] by blast
qed

text \<open>
  The payment handle \<^verbatim>\<open>uXXX@paytm\<close> masks to itself: \<open>found\<close> is true and no value changed.
\<close>

theorem found_without_change_counterexample:
  "snd (redact_obj [(''upi_id'', JStr ''uXXX@paytm'')]) = True \<and>
   fst (redact_obj [(''upi_id'', JStr ''uXXX@paytm'')]) = [(''upi_id'', JStr ''uXXX@paytm'')]"
  by code_simp

lemma getitem_in_values: "has_key js k \<Longrightarrow> getitem js k \<in> snd ` set js"
proof -
  assume "has_key js k"
  then obtain v where v: "map_of js k = Some v" by (auto simp: has_key_def)
  then have "(k, v) \<in> set js" by (rule map_of_SomeD)
  then have "v \<in> snd ` set js" by force
  then show ?thesis by (simp add: getitem_def v)
qed

text \<open>
  Claim C10. A value that is not text is rejected by each of the nine classifiers (which
  are total: the \<^verbatim>\<open>isinstance\<close> test comes first and nothing after it is evaluated);
  a record without any text value is returned as it is, with \<open>found\<close> false.
\<close>

theorem non_text_never_matches:
  "(\<not> isinstance_str val \<longrightarrow>
      \<not> is_phone val \<and> \<not> is_aadhar val \<and> \<not> is_passport val \<and> \<not> is_upi val \<and>
      \<not> is_name val \<and> \<not> is_email val \<and> \<not> is_address val \<and> \<not> is_device_id val \<and>
      \<not> is_ip val) \<and>
   ((\<forall>v \<in> snd ` set js. \<not> isinstance_str v) \<longrightarrow> redact_obj js = (js, False))"
proof
  show "\<not> isinstance_str val \<longrightarrow>
      \<not> is_phone val \<and> \<not> is_aadhar val \<and> \<not> is_passport val \<and> \<not> is_upi val \<and>
      \<not> is_name val \<and> \<not> is_email val \<and> \<not> is_address val \<and> \<not> is_device_id val \<and>
      \<not> is_ip val"
    by (simp add: is_phone_def is_aadhar_def is_passport_def is_upi_def is_name_def
          is_email_def is_address_def is_device_id_def is_ip_def)
next
  show "(\<forall>v \<in> snd ` set js. \<not> isinstance_str v) \<longrightarrow> redact_obj js = (js, False)"
  proof
    assume all: "\<forall>v \<in> snd ` set js. \<not> isinstance_str v"
    have nt: "\<not> (has_key js k \<and> isinstance_str (getitem js k))" for k
      using all getitem_in_values [of js k] by blast
    have c1: "\<not> (has_key js ''phone'' \<and> is_phone (getitem js ''phone''))"
      using nt [of "''phone''"] by (auto simp: is_phone_def)
    have c2: "\<not> (has_key js ''aadhar'' \<and> is_aadhar (getitem js ''aadhar''))"
      using nt [of "''aadhar''"] by (auto simp: is_aadhar_def)
    have c3: "\<not> (has_key js ''passport'' \<and> is_passport (getitem js ''passport''))"
      using nt [of "''passport''"] by (auto simp: is_passport_def)
    have c4: "\<not> (has_key js ''upi_id'' \<and> is_upi (getitem js ''upi_id''))"
      using nt [of "''upi_id''"] by (auto simp: is_upi_def)
    have c5: "\<not> (has_key js ''name'' \<and> is_name (getitem js ''name''))"
      using nt [of "''name''"] by (auto simp: is_name_def)
    have c6: "\<not> (has_key js ''email'' \<and> is_email (getitem js ''email''))"
      using nt [of "''email''"] by (auto simp: is_email_def)
    have c7: "\<not> (has_key js ''address'' \<and> is_address (getitem js ''address''))"
      using nt [of "''address''"] by (auto simp: is_address_def)
    have c8: "\<not> (has_key js ''device_id'' \<and> is_device_id (getitem js ''device_id''))"
      using nt [of "''device_id''"] by (auto simp: is_device_id_def)
    have c9: "\<not> (has_key js ''ip_address'' \<and> is_ip (getitem js ''ip_address''))"
      using nt [of "''ip_address''"] by (auto simp: is_ip_def)
    have st: "detect_standalone_pii js = (False, [])"
      unfolding detect_standalone_pii_eq using c1 c2 c3 c4 by simp
    have ck: "comb_keys js = []"
      unfolding comb_keys_eq using c5 c6 c7 c8 c9 by simp
    show "redact_obj js = (js, False)"
      by (simp add: redact_obj_def st detect_combinatorial_pii_def ck)
  qed
qed

theorem non_text_never_matches_witness:
  "\<not> isinstance_str (JInt 9876543210) \<and> \<not> is_phone (JInt 9876543210) \<and>
   \<not> is_device_id (JInt 9876543210) \<and>
   redact_obj [(''phone'', JInt 9876543210), (''name'', JNull)] =
     ([(''phone'', JInt 9876543210), (''name'', JNull)], False)"
proof -
  have h: "\<not> isinstance_str (JInt 9876543210)" by (simp add: isinstance_str_def)
  have r: "\<forall>v \<in> snd ` set [(''phone'', JInt 9876543210), (''name'', JNull)]. \<not> isinstance_str v"
    by (simp add: isinstance_str_def)
  show ?thesis
    using h r non_text_never_matches [of "JInt 9876543210"
        "[(''phone'', JInt 9876543210), (''name'', JNull)]"]
    by blast
qed

section \<open>Fields outside the nine names\<close>

lemma has_key_setitem_other: "k' \<noteq> k \<Longrightarrow> has_key (setitem js k v) k' = has_key js k'"
  by (simp add: has_key_def map_of_setitem)

lemma getitem_setitem_other: "k' \<noteq> k \<Longrightarrow> getitem (setitem js k v) k' = getitem js k'"
  by (simp add: getitem_def map_of_setitem)

lemma examined_fields_ne:
  assumes "k \<notin> set examined_fields"
  shows "''phone'' \<noteq> k" "''aadhar'' \<noteq> k" "''passport'' \<noteq> k" "''upi_id'' \<noteq> k"
    "''name'' \<noteq> k" "''email'' \<noteq> k" "''address'' \<noteq> k" "''device_id'' \<noteq> k"
    "''ip_address'' \<noteq> k"
  using assms by (auto simp: examined_fields_def)

lemma detect_standalone_pii_setitem:
  assumes "k \<notin> set examined_fields"
  shows "detect_standalone_pii (setitem js k v) = detect_standalone_pii js"
proof -
  note hk = examined_fields_ne [OF assms, THEN has_key_setitem_other, of js v]
  note gi = examined_fields_ne [OF assms, THEN getitem_setitem_other, of js v]
  show ?thesis
    unfolding detect_standalone_pii_eq by (simp only: hk gi)
qed

lemma comb_keys_setitem:
  assumes "k \<notin> set examined_fields"
  shows "comb_keys (setitem js k v) = comb_keys js"
proof -
  note hk = examined_fields_ne [OF assms, THEN has_key_setitem_other, of js v]
  note gi = examined_fields_ne [OF assms, THEN getitem_setitem_other, of js v]
  show ?thesis
    unfolding comb_keys_eq by (simp only: hk gi)
qed

lemma comb_mask_setitem:
  assumes "k \<notin> set examined_fields"
  shows "comb_mask (setitem js k v) k' acc = comb_mask js k' acc"
proof (cases "k' = k")
  case True
  then show ?thesis
    using examined_fields_ne [OF assms] by (auto simp: comb_mask_def Let_def)
next
  case False
  then show ?thesis
    by (simp add: comb_mask_def getitem_setitem_other)
qed

lemma detect_combinatorial_pii_setitem:
  assumes "k \<notin> set examined_fields"
  shows "detect_combinatorial_pii (setitem js k v) = detect_combinatorial_pii js"
proof -
  have eq: "comb_mask (setitem js k v) = comb_mask js"
    by (intro ext) (rule comb_mask_setitem [OF assms])
  show ?thesis
    by (simp only: detect_combinatorial_pii_def comb_keys_setitem [OF assms] eq)
qed

lemma update_commute:
  "k \<noteq> k' \<Longrightarrow> k' \<in> fst ` set al \<Longrightarrow>
   AList.update k' v' (AList.update k v al) = AList.update k v (AList.update k' v' al)"
proof (induction al)
  case Nil
  then show ?case by simp
next
  case (Cons p al)
  show ?case
  proof (cases "fst p = k'")
    case True
    then show ?thesis using Cons.prems(1) by (cases p) auto
  next
    case False
    then have "k' \<in> fst ` set al" using Cons.prems(2) by auto
    then show ?thesis
      using Cons.IH [OF Cons.prems(1)] False by (cases p) auto
  qed
qed

lemma dict_update_setitem_commute:
  "k \<notin> fst ` set r \<Longrightarrow> fst ` set r \<subseteq> fst ` set d \<Longrightarrow>
   dict_update (setitem d k v) r = setitem (dict_update d r) k v"
proof (induction r arbitrary: d)
  case Nil
  show ?case by (simp add: dict_update_def)
next
  case (Cons p r)
  obtain k' v' where p: "p = (k', v')" by (cases p)
  have ne: "k \<noteq> k'" using Cons.prems(1) by (auto simp: p)
  have k': "k' \<in> fst ` set d" using Cons.prems(2) by (auto simp: p)
  have r1: "k \<notin> fst ` set r" using Cons.prems(1) by auto
  have r2: "fst ` set r \<subseteq> fst ` set (setitem d k' v')"
    using Cons.prems(2) by (auto simp: keys_setitem_set)
  have step: "dict_update x (p # r) = dict_update (setitem x k' v') r" for x
    by (simp add: dict_update_def p)
  have "setitem (setitem d k v) k' v' = setitem (setitem d k' v') k v"
    unfolding setitem_def by (rule update_commute [OF ne k'])
  then show ?case
    using Cons.IH [OF r1 r2] by (simp add: step)
qed

lemma other_key_not_redacted:
  assumes "k \<notin> set examined_fields"
  shows "k \<notin> fst ` set (snd (detect_standalone_pii js))"
    and "k \<notin> fst ` set (snd (detect_combinatorial_pii js))"
proof -
  have a: "k \<notin> {''phone'', ''aadhar'', ''passport'', ''upi_id''}"
    using assms by (simp add: examined_fields_def)
  show "k \<notin> fst ` set (snd (detect_standalone_pii js))"
    by (rule contra_subsetD [OF standalone_keys_names a])
  have b: "k \<notin> {''name'', ''email'', ''address'', ''device_id'', ''ip_address''}"
    using assms by (simp add: examined_fields_def)
  have c: "k \<notin> set (comb_keys js)"
    by (rule contra_subsetD [OF comb_keys_subset b])
  have sub: "fst ` set (snd (detect_combinatorial_pii js)) \<subseteq> set (comb_keys js)"
    by (simp add: detect_combinatorial_pii_keys)
  show "k \<notin> fst ` set (snd (detect_combinatorial_pii js))"
    by (rule contra_subsetD [OF sub c])
qed

text \<open>
  Claim C5. Only the nine names of \<open>examined_fields\<close> are looked at. Storing any value
  under another name changes neither \<open>found\<close> nor the masking of the other fields, and the
  value itself is kept as it is.
\<close>

theorem other_fields_ignored:
  assumes "k \<notin> set examined_fields"
  shows "snd (redact_obj (setitem js k v)) = snd (redact_obj js) \<and>
         fst (redact_obj (setitem js k v)) = setitem (fst (redact_obj js)) k v \<and>
         map_of (fst (redact_obj js)) k = map_of js k"
proof (intro conjI)
  note st = detect_standalone_pii_setitem [OF assms]
  note cb = detect_combinatorial_pii_setitem [OF assms]
  show "snd (redact_obj (setitem js k v)) = snd (redact_obj js)"
    by (simp add: redact_obj_eq st cb)
  have keys1: "map fst (dict_update js (snd (detect_standalone_pii js))) = map fst js"
    by (rule keys_dict_update [OF standalone_keys_subset])
  have sub2: "fst ` set (snd (detect_combinatorial_pii js))
                \<subseteq> fst ` set (dict_update js (snd (detect_standalone_pii js)))"
    using combinatorial_keys_subset [of js] keys1 by (metis list.set_map)
  have "dict_update (dict_update (setitem js k v) (snd (detect_standalone_pii js)))
          (snd (detect_combinatorial_pii js)) =
        dict_update (setitem (dict_update js (snd (detect_standalone_pii js))) k v)
          (snd (detect_combinatorial_pii js))"
    by (simp add: dict_update_setitem_commute [OF other_key_not_redacted(1) [OF assms]
          standalone_keys_subset])
  also have "\<dots> = setitem (dict_update (dict_update js (snd (detect_standalone_pii js)))
                              (snd (detect_combinatorial_pii js))) k v"
    by (rule dict_update_setitem_commute [OF other_key_not_redacted(2) [OF assms] sub2])
  finally show "fst (redact_obj (setitem js k v)) = setitem (fst (redact_obj js)) k v"
    by (simp add: redact_obj_eq st cb)
  show "map_of (fst (redact_obj js)) k = map_of js k"
    by (rule untouched_key_kept [OF other_key_not_redacted [OF assms]])
qed

theorem other_fields_ignored_witness:
  "''notes'' \<notin> set examined_fields \<and>
   redact_obj (setitem [(''email'', JStr ''john@test.com'')] ''notes'' (JStr ''9876543210'')) =
     ([(''email'', JStr ''john@test.com''), (''notes'', JStr ''9876543210'')], False)"
proof -
  have h: "''notes'' \<notin> set examined_fields" by (simp add: examined_fields_def)
  have r: "redact_obj [(''email'', JStr ''john@test.com'')] =
             ([(''email'', JStr ''john@test.com'')], False)"
    by code_simp
  show ?thesis
    using h other_fields_ignored [OF h, of "[(''email'', JStr ''john@test.com'')]"
        "JStr ''9876543210''"]
    by (simp add: r setitem_def prod_eq_iff)
qed

section \<open>Matching without captures\<close>

lemma map_fst_concat_cases:
  "(\<And>s g. (s, g) \<in> set xs \<Longrightarrow> map fst (f s g) = h s) \<Longrightarrow>
   map fst (concat (map (\<lambda>(s, g). f s g) xs)) = concat (map h (map fst xs))"
  by (induction xs) auto

lemma rmatch_rests_any: "map fst (rmatch subj r s g) = map fst (rmatch subj r s [])"
proof (induction r arbitrary: s g)
  case (Cls P)
  show ?case by (simp add: rmatch.simps(1) split: list.splits)
next
  case Eps
  show ?case by (simp add: rmatch.simps(2))
next
  case (Seq a b)
  have l: "map fst (rmatch subj (Seq a b) s g') =
             concat (map (\<lambda>s'. map fst (rmatch subj b s' [])) (map fst (rmatch subj a s g')))"
    for g'
    unfolding rmatch.simps(3) by (rule map_fst_concat_cases) (rule Seq.IH(2))
  have "map fst (rmatch subj a s g) = map fst (rmatch subj a s [])"
    by (rule Seq.IH(1))
  then show ?case
    unfolding l by (rule arg_cong)
next
  case (Alt a b)
  show ?case using Alt.IH(1) [of s g] Alt.IH(2) [of s g] by (simp add: rmatch.simps(4))
next
  case (Star a)
  show ?case
  proof (induction s arbitrary: g rule: length_induct)
    case (1 s)
    have inner: "map fst (if length s' < length s then rmatch subj (Star a) s' g'' else []) =
                 (if length s' < length s then map fst (rmatch subj (Star a) s' []) else [])"
      for s' g''
    proof (cases "length s' < length s")
      case True
      have "map fst (rmatch subj (Star a) s' g'') = map fst (rmatch subj (Star a) s' [])"
        by (rule 1 [rule_format, OF True])
      then show ?thesis using True by (simp only: if_True)
    next
      case False
      then show ?thesis by (simp only: if_False list.map)
    qed
    have l: "map fst (rmatch subj (Star a) s g') =
               concat (map (\<lambda>s'. if length s' < length s
                                  then map fst (rmatch subj (Star a) s' []) else [])
                         (map fst (rmatch subj a s g'))) @ [s]"
      for g'
    proof -
      have "map fst (concat (map (\<lambda>(s', g''). if length s' < length s
                                   then rmatch subj (Star a) s' g'' else [])
                               (rmatch subj a s g'))) =
            concat (map (\<lambda>s'. if length s' < length s
                                then map fst (rmatch subj (Star a) s' []) else [])
                        (map fst (rmatch subj a s g')))"
        by (rule map_fst_concat_cases) (rule inner)
      then show ?thesis
        by (subst rmatch.simps(5)) simp
    qed
    have "map fst (rmatch subj a s g) = map fst (rmatch subj a s [])"
      by (rule Star.IH)
    then show ?case
      unfolding l by simp
  qed
next
  case (Grp n a)
  have "map fst (rmatch subj (Grp n a) s g') = map fst (rmatch subj a s g')" for g'
    by (simp add: rmatch.simps(6) comp_def case_prod_beta)
  then show ?case using Grp.IH [of s g] by simp
next
  case Bol
  show ?case by (simp add: rmatch.simps(7))
next
  case Eol
  show ?case by (simp add: rmatch.simps(8))
qed

lemma rests_Cls: "rests subj (Cls P) s = (case s of [] \<Rightarrow> [] | c # cs \<Rightarrow> if P c then [cs] else [])"
  by (simp add: rests_def rmatch.simps(1) split: list.splits)

lemma rests_Eps: "rests subj Eps s = [s]"
  by (simp add: rests_def rmatch.simps(2))

lemma rests_Seq: "rests subj (Seq a b) s = concat (map (rests subj b) (rests subj a s))"
  unfolding rests_def rmatch.simps(3)
  by (rule map_fst_concat_cases) (rule rmatch_rests_any)



lemma rests_Bol: "rests subj Bol s = (if length s = length subj then [s] else [])"
  by (simp add: rests_def rmatch.simps(7))


lemma rests_Star:
  "rests subj (Star a) s =
     concat (map (\<lambda>s'. if length s' < length s then rests subj (Star a) s' else [])
                 (rests subj a s)) @ [s]"
proof -
  have inner: "map fst (if length s' < length s then rmatch subj (Star a) s' g' else []) =
        (if length s' < length s then rests subj (Star a) s' else [])" for s' g'
  proof (cases "length s' < length s")
    case True
    have "map fst (rmatch subj (Star a) s' g') = rests subj (Star a) s'"
      unfolding rests_def by (rule rmatch_rests_any)
    then show ?thesis using True by (simp only: if_True)
  next
    case False
    then show ?thesis by (simp only: if_False list.map)
  qed
  have "map fst (concat (map (\<lambda>(s', g'). if length s' < length s
                                 then rmatch subj (Star a) s' g' else [])
                             (rmatch subj a s []))) =
        concat (map (\<lambda>s'. if length s' < length s then rests subj (Star a) s' else [])
                    (map fst (rmatch subj a s [])))"
    by (rule map_fst_concat_cases) (rule inner)
  then have "map fst (rmatch subj (Star a) s []) =
        concat (map (\<lambda>s'. if length s' < length s then rests subj (Star a) s' else [])
                    (map fst (rmatch subj a s []))) @ [s]"
    by (subst rmatch.simps(5)) simp
  then show ?thesis
    by (simp only: rests_def [symmetric])
qed

lemma fullmatch_rests: "fullmatch r s = ([] \<in> set (rests s r s))"
  by (force simp: fullmatch_def rests_def list_ex_iff)

lemma rests_rrep_Cls:
  "rests subj (rrep n (Cls P)) s =
     (if n \<le> length s \<and> list_all P (take n s) then [drop n s] else [])"
proof (induction n arbitrary: s)
  case 0
  show ?case by (simp add: rests_Eps)
next
  case (Suc n)
  show ?case
  proof (cases s)
    case Nil
    then show ?thesis by (simp add: rests_Seq rests_Cls)
  next
    case (Cons c cs)
    show ?thesis
      by (cases "P c") (simp_all add: Cons rests_Seq rests_Cls Suc)
  qed
qed

lemma fullmatch_rrep_Cls:
  "fullmatch (rrep n (Cls P)) s = (length s = n \<and> list_all P s)"
  by (auto simp: fullmatch_rests rests_rrep_Cls)

section \<open>Passport and payment handle\<close>

lemma fullmatch_re_passport:
  "fullmatch re_passport s =
     (length s = 8 \<and> is_upper_AZ (s ! 0) \<and> list_all is_digit (drop 1 s))"
proof (cases s)
  case Nil
  then show ?thesis by (simp add: fullmatch_rests re_passport_def rests_Seq rests_Cls)
next
  case (Cons c cs)
  show ?thesis
    by (cases "is_upper_AZ c")
       (auto simp: Cons fullmatch_rests re_passport_def rests_Seq rests_Cls rests_rrep_Cls)
qed

text \<open>
  Claim C9. A value accepted by the passport classifier has length 8, so \<^verbatim>\<open>mask_passport\<close>
  returns its first character followed by seven X and never the sentinel
  \<^verbatim>\<open>[REDACTED_PASSPORT]\<close>.
\<close>

theorem passport_sentinel_unreachable:
  "is_passport val \<Longrightarrow>
     length (the_str val) = 8 \<and>
     mask_passport (the_str val) = [the_str val ! 0] @ ''XXXXXXX'' \<and>
     mask_passport (the_str val) \<noteq> ''[REDACTED_PASSPORT]''"
  by (simp add: is_passport_def fullmatch_re_passport mask_passport_def)

theorem passport_sentinel_unreachable_witness:
  "is_passport (JStr ''A1234567'') \<and> length (the_str (JStr ''A1234567'')) = 8 \<and>
   mask_passport (the_str (JStr ''A1234567'')) = ''AXXXXXXX''"
proof -
  have h: "is_passport (JStr ''A1234567'')" by code_simp
  show ?thesis
    using h passport_sentinel_unreachable [OF h] by simp
qed

text \<open>
  On a handle with a character before its last \<^verbatim>\<open>@\<close> and text after it, all on one line,
  the masker does what its comment says: first character, \<^verbatim>\<open>XXX\<close>, then the
  \<^verbatim>\<open>@\<close> and what follows it.
\<close>

lemma rmatch_dot: "c \<noteq> newline \<Longrightarrow> rmatch subj dot (c # cs) g = [(cs, g)]"
  by (simp add: dot_def rmatch.simps(1))

lemma rmatch_dot_Nil: "rmatch subj dot [] g = []"
  by (simp add: dot_def rmatch.simps(1))

lemma rmatch_star_dot:
  "newline \<notin> set w \<Longrightarrow> rmatch subj (Star dot) w g = map (\<lambda>u. (u, g)) (sfx w)"
proof (induction w)
  case Nil
  show ?case by (subst rmatch.simps(5)) (simp add: rmatch_dot_Nil)
next
  case (Cons x xs)
  have x: "x \<noteq> newline" and xs: "newline \<notin> set xs" using Cons.prems by auto
  show ?case
    by (subst rmatch.simps(5)) (simp add: rmatch_dot [OF x] Cons.IH [OF xs])
qed

lemma sfx_append: "\<exists>longer. sfx (pre @ u) = sfx u @ longer"
  by (induction pre) auto

lemma sfx_heads: "t \<in> set (sfx post) \<Longrightarrow> t = [] \<or> hd t \<in> set post"
  by (induction post) auto

lemma sfx_first: "\<exists>longer. sfx post = [] # longer"
  by (induction post) auto

lemma rmatch_upi_tail_none:
  "t = [] \<or> hd t \<noteq> CHR ''@'' \<Longrightarrow> rmatch subj upi_tail t g = []"
  by (cases t) (auto simp: upi_tail_def rmatch.simps lit_def)

lemma rmatch_upi_tail_at:
  assumes "post \<noteq> []" "newline \<notin> set post"
  shows "\<exists>more. rmatch subj upi_tail (CHR ''@'' # post) g =
           ([], (2, CHR ''@'' # post) # g) # more"
proof -
  obtain x r where post: "post = x # r" using assms(1) by (cases post) auto
  have x: "x \<noteq> newline" and r: "newline \<notin> set r" using assms(2) by (auto simp: post)
  obtain longer where l: "sfx r = [] # longer" using sfx_first [of r] by blast
  have plus: "rmatch subj (rplus dot) (x # r) g = map (\<lambda>u. (u, g)) (sfx r)"
    by (simp add: rplus_def rmatch.simps(3) rmatch_dot [OF x] rmatch_star_dot [OF r])
  have "rmatch subj (Seq (lit CHR ''@'') (rplus dot)) (CHR ''@'' # post) g =
          map (\<lambda>u. (u, g)) (sfx r)"
    by (simp add: rmatch.simps(3) rmatch.simps(1) lit_def post plus)
  then show ?thesis
    by (simp add: upi_tail_def rmatch.simps(6) l post)
qed

lemma concat_map_skip:
  "(\<And>t. t \<in> set ts \<Longrightarrow> f t = []) \<Longrightarrow> concat (map f (ts @ us)) = concat (map f us)"
  by (induction ts) auto

lemma rmatch_re_upi_first:
  assumes "newline \<notin> set (c # pre @ post)" "CHR ''@'' \<notin> set post" "post \<noteq> []"
  shows "\<exists>more. rmatch subj re_upi (c # pre @ CHR ''@'' # post) [] =
           ([], [(2, CHR ''@'' # post), (1, [c])]) # more"
proof -
  let ?w = "pre @ CHR ''@'' # post"
  let ?g = "[(1::nat, [c])]"
  have c: "c \<noteq> newline" and w: "newline \<notin> set ?w" and p: "newline \<notin> set post"
    using assms(1) by (auto simp: newline_def)
  have g1: "rmatch subj (Grp 1 dot) (c # ?w) [] = [(?w, ?g)]"
    by (simp add: rmatch.simps(6) rmatch_dot [OF c])
  obtain l1 where l1: "sfx ?w = sfx (CHR ''@'' # post) @ l1"
    using sfx_append [of pre "CHR ''@'' # post"] by blast
  have skip: "rmatch subj upi_tail t ?g = []" if t: "t \<in> set (sfx post)" for t
    using sfx_heads [OF t] assms(2) by (intro rmatch_upi_tail_none) auto
  obtain more where more: "rmatch subj upi_tail (CHR ''@'' # post) ?g =
      ([], (2, CHR ''@'' # post) # ?g) # more"
    using rmatch_upi_tail_at [OF assms(3) p, of subj ?g] by blast
  have "rmatch subj (Seq (Star dot) upi_tail) ?w ?g =
          concat (map (\<lambda>t. rmatch subj upi_tail t ?g) (sfx ?w))"
    by (simp add: rmatch.simps(3) rmatch_star_dot [OF w] comp_def)
  also have "\<dots> = concat (map (\<lambda>t. rmatch subj upi_tail t ?g)
                        (sfx post @ ([CHR ''@'' # post] @ l1)))"
    by (simp add: l1)
  also have "\<dots> = concat (map (\<lambda>t. rmatch subj upi_tail t ?g) ([CHR ''@'' # post] @ l1))"
    by (rule concat_map_skip) (rule skip)
  also have "\<dots> = ([], (2, CHR ''@'' # post) # ?g) #
                     (more @ concat (map (\<lambda>t. rmatch subj upi_tail t ?g) l1))"
    using more by simp
  finally have tail: "rmatch subj (Seq (Star dot) upi_tail) ?w ?g =
      ([], (2, CHR ''@'' # post) # ?g) #
        (more @ concat (map (\<lambda>t. rmatch subj upi_tail t ?g) l1))" .
  have "rmatch subj re_upi (c # ?w) [] = rmatch subj (Seq (Star dot) upi_tail) ?w ?g"
    unfolding re_upi_def upi_tail_def [symmetric]
    by (subst rmatch.simps(3)) (use g1 in simp)
  then show ?thesis using tail by simp
qed

lemma mask_upi_ordinary_handle:
  assumes "newline \<notin> set (c # pre @ post)" "CHR ''@'' \<notin> set post" "post \<noteq> []"
  shows "mask_upi (c # pre @ CHR ''@'' # post) = c # ''XXX'' @ CHR ''@'' # post"
proof -
  let ?s = "c # pre @ CHR ''@'' # post"
  obtain more where m: "rmatch ?s re_upi ?s [] = ([], [(2, CHR ''@'' # post), (1, [c])]) # more"
    using rmatch_re_upi_first [OF assms, of ?s] by blast
  have e: "rmatch ?s re_upi [] [] = []"
    by (simp add: re_upi_def rmatch.simps(3) rmatch.simps(6) rmatch_dot_Nil)
  have "sub_from ?s re_upi (\<lambda>m. mgroup m 1 @ ''XXX'' @ mgroup m 2) [] = []"
    by (subst sub_from.simps) (simp add: e)
  then show ?thesis
    unfolding mask_upi_def re_sub_def
    by (subst sub_from.simps) (simp add: m mgroup_def)
qed

text \<open>
  Claim C2 fails on the code. The classifier accepts any text containing \<^verbatim>\<open>@\<close>, but
  the masker's pattern needs a character after the \<^verbatim>\<open>@\<close>: the handle \<^verbatim>\<open>user@\<close> is
  classified, reported as found, and returned unmasked.
\<close>

theorem mask_upi_leaves_handle:
  "is_upi (JStr ''user@'') \<and> mask_upi ''user@'' = ''user@'' \<and>
   redact_obj [(''upi_id'', JStr ''user@'')] = ([(''upi_id'', JStr ''user@'')], True)"
  by code_simp

section \<open>The network address classifier\<close>












































end
